theory Spec2Isabelle
  imports Main
begin

section \<open>JavaScript numbers that hold integers\<close>

text \<open>
  The counters of the examples are JavaScript numbers (IEEE doubles) that only ever hold
  integers. Every integer of magnitude up to \<open>2 ^ 53\<close> is a double, and \<open>x + 1\<close> and
  \<open>x - 1\<close> are exact there, except that \<open>2 ^ 53 + 1\<close> is not a double and rounds back
  to \<open>2 ^ 53\<close> (ties to even), and likewise \<open>- (2 ^ 53) - 1\<close>. The two functions below
  are \<open>x + 1\<close> and \<open>x - 1\<close> on that range, which is all that a counter stepping by one
  from 0 or 1 can reach.
\<close>

definition plus_one :: "int \<Rightarrow> int" where
  "plus_one x = (if x < 2 ^ 53 then x + 1 else x)"

definition minus_one :: "int \<Rightarrow> int" where
  "minus_one x = (if - (2 ^ 53) < x then x - 1 else x)"

section \<open>The hook store of state.md (``How useState Works Internally'')\<close>

text \<open>
  \<^verbatim>\<open>let componentStates = []; let hookIndex = 0;\<close>
  A JavaScript array read out of range gives \<open>undefined\<close> (here \<open>None\<close>); a write out
  of range extends the array, the skipped slots staying \<open>undefined\<close>. The field
  \<open>scheduled\<close> counts the calls of \<open>scheduleRender()\<close>, whose body the source does
  not show.
\<close>

record 'v hook_store =
  componentStates :: "'v option list"
  hookIndex :: nat
  scheduled :: nat

definition js_get :: "'a option list \<Rightarrow> nat \<Rightarrow> 'a option" where
  "js_get xs i = (if i < length xs then xs ! i else None)"

definition js_set :: "'a option list \<Rightarrow> nat \<Rightarrow> 'a \<Rightarrow> 'a option list" where
  "js_set xs i v =
     (if i < length xs then xs[i := Some v]
      else xs @ replicate (i - length xs) None @ [Some v])"

text \<open>The argument of \<open>setState\<close>: a value, or a function of the previous value.\<close>

datatype 'v update = Literal 'v | Updater "'v \<Rightarrow> 'v"

text \<open>
  \<^verbatim>\<open>typeof newValue === 'function' ? newValue(componentStates[currentIndex]) : newValue\<close>
  The second argument is what the slot holds. An updater applied to \<open>undefined\<close> is
  outside the model (\<open>None\<close>): the values of type \<open>'v\<close> do not include \<open>undefined\<close>,
  and \<open>useState\<close> fills the slot before it hands the setter out.
\<close>

fun resolve :: "'v update \<Rightarrow> 'v \<Rightarrow> 'v" where
  "resolve (Updater f) prev = f prev"
| "resolve (Literal v) prev = v"

fun nextValue :: "'v update \<Rightarrow> 'v option \<Rightarrow> 'v option" where
  "nextValue newValue (Some prev) = Some (resolve newValue prev)"
| "nextValue (Updater f) None = None"
| "nextValue (Literal v) None = Some v"

text \<open>
  \<open>useState\<close> returns the state read at the current index and the setter; the setter
  closes over \<open>currentIndex\<close> only, so it is represented by that index.
\<close>

definition useState :: "'v \<Rightarrow> 'v hook_store \<Rightarrow> ('v \<times> nat) \<times> 'v hook_store" where
  "useState initialValue s =
     (let currentIndex = hookIndex s;
          cs = (case js_get (componentStates s) currentIndex of
                  None \<Rightarrow> js_set (componentStates s) currentIndex initialValue
                | Some _ \<Rightarrow> componentStates s);
          state = (case js_get cs currentIndex of Some v \<Rightarrow> v | None \<Rightarrow> initialValue)
      in ((state, currentIndex), s\<lparr>componentStates := cs, hookIndex := currentIndex + 1\<rparr>))"

text \<open>\<open>setState\<close> stores the next value at its index and calls \<open>scheduleRender()\<close>.\<close>

definition setState :: "nat \<Rightarrow> 'v update \<Rightarrow> 'v hook_store \<Rightarrow> 'v hook_store option" where
  "setState currentIndex newValue s =
     (case nextValue newValue (js_get (componentStates s) currentIndex) of
        None \<Rightarrow> None
      | Some nv \<Rightarrow>
          Some (s\<lparr>componentStates := js_set (componentStates s) currentIndex nv,
                   scheduled := scheduled s + 1\<rparr>))"

text \<open>
  A render runs the component function with the hook index back at 0 (the source keeps
  \<open>hookIndex\<close> global and does not show the reset). The store before the first render:
\<close>

definition fresh_store :: "'v hook_store" where
  "fresh_store = \<lparr>componentStates = [], hookIndex = 0, scheduled = 0\<rparr>"

definition begin_render :: "'v hook_store \<Rightarrow> 'v hook_store" where
  "begin_render s = s\<lparr>hookIndex := 0\<rparr>"

section \<open>The counter components\<close>

text \<open>
  \<open>Counter\<close> and \<open>CounterFixed\<close> of state.md (``How setState Actually Works'') and
  \<open>Counter\<close> of src/examples/Counter.jsx all start with
  \<^verbatim>\<open>const [count, setCount] = useState(0);\<close>
\<close>

definition Counter :: "int hook_store \<Rightarrow> (int \<times> nat) \<times> int hook_store" where
  "Counter s = useState 0 (begin_render s)"

text \<open>
  state.md, \<open>Counter.handleClick\<close>: three times \<^verbatim>\<open>setCount(count + 1)\<close>, with the
  \<open>count\<close> that the render captured.
\<close>

definition Counter_handleClick :: "int \<Rightarrow> nat \<Rightarrow> int hook_store \<Rightarrow> int hook_store option" where
  "Counter_handleClick count setCount s =
     Option.bind (Option.bind (setState setCount (Literal (plus_one count)) s)
       (setState setCount (Literal (plus_one count))))
       (setState setCount (Literal (plus_one count)))"

text \<open>
  state.md, \<open>CounterFixed.handleClick\<close>: three times \<^verbatim>\<open>setCount(prev => prev + 1)\<close>.
\<close>

definition CounterFixed_handleClick :: "nat \<Rightarrow> int hook_store \<Rightarrow> int hook_store option" where
  "CounterFixed_handleClick setCount s =
     Option.bind (Option.bind (setState setCount (Updater (\<lambda>prev. plus_one prev)) s)
       (setState setCount (Updater (\<lambda>prev. plus_one prev))))
       (setState setCount (Updater (\<lambda>prev. plus_one prev)))"

text \<open>
  Counter.jsx, \<open>incrementThree\<close>: three times \<^verbatim>\<open>setCount(c => c + 1)\<close>.
\<close>

definition incrementThree :: "nat \<Rightarrow> int hook_store \<Rightarrow> int hook_store option" where
  "incrementThree setCount s =
     Option.bind (Option.bind (setState setCount (Updater (\<lambda>c. plus_one c)) s)
       (setState setCount (Updater (\<lambda>c. plus_one c))))
       (setState setCount (Updater (\<lambda>c. plus_one c)))"

text \<open>The count that the next render of the counter reads.\<close>

definition rendered_count :: "int hook_store \<Rightarrow> int" where
  "rendered_count s = fst (fst (Counter s))"

section \<open>The todo reducer (src/examples/TodoUseReducer.jsx)\<close>

text \<open>
  The JavaScript values that the examples keep in state: \<open>null\<close>, booleans, numbers
  holding integers, strings.
\<close>

datatype jsval = Null | Boolean bool | Num int | Str string

text \<open>
  A payload is the text of a new item (a string) or the id of an item (a number). An
  item is \<^verbatim>\<open>{ id: Date.now(), text: action.payload }\<close>. \<open>Date.now()\<close> reads the
  clock; the reading is the first argument of \<open>reducer\<close>. The \<open>switch\<close> and
  \<^verbatim>\<open>t.id !== action.payload\<close> compare strictly, so a number never equals a string.
\<close>

datatype todo = Todo (todo_id: int) (todo_text: jsval)

datatype action = Action (action_type: string) (payload: jsval)

definition reducer :: "int \<Rightarrow> todo list \<Rightarrow> action \<Rightarrow> todo list" where
  "reducer now state action =
     (if action_type action = ''add'' then state @ [Todo now (payload action)]
      else if action_type action = ''remove''
        then filter (\<lambda>t. Num (todo_id t) \<noteq> payload action) state
      else state)"

text \<open>
  Modelled from the spec: \<open>registerReducer\<close> and its \<open>dispatch\<close> (React's
  \<open>useReducer\<close>; the source only calls it). A reducer-backed cell is one slot of the
  store; \<open>dispatch(action)\<close> replaces what the slot holds by
  \<open>reducerFn(state, action)\<close> and requests a render. Dispatching on a slot that was never
  registered is outside the model.
\<close>

definition dispatch :: "('v \<Rightarrow> 'a \<Rightarrow> 'v) \<Rightarrow> nat \<Rightarrow> 'a \<Rightarrow> 'v hook_store \<Rightarrow> 'v hook_store option" where
  "dispatch reducerFn i action s =
     (if i < length (componentStates s) then
        (case componentStates s ! i of
           None \<Rightarrow> None
         | Some state \<Rightarrow>
             Some (s\<lparr>componentStates := (componentStates s)[i := Some (reducerFn state action)],
                      scheduled := Suc (scheduled s)\<rparr>))
      else None)"

section \<open>The component with a conditional hook (state.md)\<close>

text \<open>
  \<open>BadComponent\<close> (``Why Hook Order Matters'') on the hook store:
  \<^verbatim>\<open>if (shouldShowCounter) { const [count, setCount] = useState(0); }\<close>
  \<^verbatim>\<open>const [name, setName] = useState('');\<close>
  The result is the \<open>name\<close> that the render reads.
\<close>

definition BadComponent_render :: "bool \<Rightarrow> jsval hook_store \<Rightarrow> jsval \<times> jsval hook_store" where
  "BadComponent_render shouldShowCounter s =
     (let s1 = (if shouldShowCounter then snd (useState (Num 0) (begin_render s))
                else begin_render s);
          ((name, setName), s2) = useState (Str []) s1
      in (name, s2))"

section \<open>The user panel (src/examples/UserFetch.jsx)\<close>

text \<open>
  \<^verbatim>\<open>const [userId, setUserId] = useState(1);\<close> is the first hook of \<open>UserFetcher\<close>,
  slot 0. The handlers of the two buttons call \<open>setUserId\<close> only; \<open>user\<close>,
  \<open>loading\<close> and \<open>error\<close> (slots 1 to 3) are not numbers and no handler touches them,
  so the store below keeps the number slot.
\<close>

definition UserFetcher :: "int hook_store \<Rightarrow> (int \<times> nat) \<times> int hook_store" where
  "UserFetcher s = useState 1 (begin_render s)"

datatype button = Prev | Next

text \<open>
  \<^verbatim>\<open>setUserId(id => Math.max(1, id - 1))\<close> and \<^verbatim>\<open>setUserId(id => id + 1)\<close>
\<close>

fun onClick :: "button \<Rightarrow> nat \<Rightarrow> int hook_store \<Rightarrow> int hook_store option" where
  "onClick Prev setUserId s = setState setUserId (Updater (\<lambda>id. max 1 (minus_one id))) s"
| "onClick Next setUserId s = setState setUserId (Updater (\<lambda>id. plus_one id)) s"

fun clicks :: "button list \<Rightarrow> nat \<Rightarrow> int hook_store \<Rightarrow> int hook_store option" where
  "clicks [] setUserId s = Some s"
| "clicks (b # bs) setUserId s = Option.bind (onClick b setUserId s) (clicks bs setUserId)"

text \<open>The user id that the next render of the panel reads.\<close>

definition rendered_userId :: "int hook_store \<Rightarrow> int" where
  "rendered_userId s = fst (fst (UserFetcher s))"

section \<open>The effect gate of state.md (``How useEffect Works Internally'')\<close>

text \<open>
  \<^verbatim>\<open>effectCallbacks[effectIndex] = { deps, cleanup }\<close>. A dependency array that was
  not passed is \<open>undefined\<close> (\<open>None\<close>). A cleanup is named by the number of the
  activation whose run of the body returned it.
\<close>

record 'v effect_reg =
  deps :: "'v list option"
  cleanup :: "nat option"

text \<open>
  Modelled from the spec: \<open>areArraysEqual\<close>, which the source calls and does not
  define. Section 4.2 (c) compares the values position by position under the equality
  rule; a list of another length, or an omitted list against a recorded one, counts as
  changed (section 7, \<open>WatchListArityChanged\<close>: the effect is treated as ``always run'').
\<close>

definition areArraysEqual :: "('v \<Rightarrow> 'v \<Rightarrow> bool) \<Rightarrow> 'v list option \<Rightarrow> 'v list \<Rightarrow> bool" where
  "areArraysEqual same dependencies previousDependencies =
     (case dependencies of None \<Rightarrow> False | Some ds \<Rightarrow> list_all2 same ds previousDependencies)"

text \<open>
  \<^verbatim>\<open>const depsChanged = !previousDependencies || !areArraysEqual(dependencies, previousDependencies);\<close>
  An empty array is truthy in JavaScript, so only \<open>undefined\<close> takes the first branch.
\<close>

definition depsChanged :: "('v \<Rightarrow> 'v \<Rightarrow> bool) \<Rightarrow> 'v list option \<Rightarrow> 'v list option \<Rightarrow> bool" where
  "depsChanged same previousDependencies dependencies =
     (case previousDependencies of
        None \<Rightarrow> True
      | Some p \<Rightarrow> \<not> areArraysEqual same dependencies p)"

text \<open>
  \<open>useEffect\<close> reads \<^verbatim>\<open>effectCallbacks[effectIndex]?.deps\<close>, decides whether the
  callback is scheduled, and stores the current dependencies beside the cleanup that was
  there. It returns the decision and the stored entry.
\<close>

definition useEffect ::
  "('v \<Rightarrow> 'v \<Rightarrow> bool) \<Rightarrow> 'v list option \<Rightarrow> 'v effect_reg option \<Rightarrow> bool \<times> 'v effect_reg" where
  "useEffect same dependencies entry =
     (let previousDependencies = (case entry of None \<Rightarrow> None | Some e \<Rightarrow> deps e)
      in (depsChanged same previousDependencies dependencies,
          \<lparr>deps = dependencies,
           cleanup = (case entry of None \<Rightarrow> None | Some e \<Rightarrow> cleanup e)\<rparr>))"

section \<open>The instance and its scheduler\<close>

text \<open>
  Modelled from the spec: the instance, the batch queue, the flush, the activation with
  its registration-order check, the effect pass with cleanups, teardown and the
  re-activation ceiling (sections 3, 4.1 to 4.3 and 7). The source has none of them: its
  \<open>setState\<close> calls a \<open>scheduleRender()\<close> and its \<open>useEffect\<close> a
  \<open>scheduleEffect()\<close> that it does not show. The definitions below follow the spec's
  words and reuse \<open>resolve\<close> and \<open>useEffect\<close> of the source.
\<close>

datatype phase = Idle | BatchOpen | Flushing

datatype error = RegistrationOrderViolation | RenderLoopExceeded

text \<open>
  What an observer sees: a flush, the \<open>K\<close>-th activation, its effect pass, the cleanup
  \<open>h\<close> of registration \<open>k\<close> running, the body of registration \<open>k\<close> running in the
  pass of activation \<open>K\<close>.
\<close>

datatype event =
    Flushed
  | Activated nat
  | EffectPass nat
  | CleanupRan nat nat
  | BodyRan nat nat

text \<open>
  One activation runs the instance body, which makes its registration calls in order.
  A \<open>registerEffect\<close> call hands over the watch-list (\<open>None\<close> when omitted) and the
  body; of the body the model keeps the mutations it issues when it runs and whether it
  returns a cleanup thunk.
\<close>

record 'v effect_call =
  watchList :: "'v list option"
  writes :: "(nat \<times> 'v update) list"
  returnsCleanup :: bool

datatype 'v call = RegisterCell 'v | RegisterEffect "'v effect_call"

datatype kind = CellCall | EffectCall

fun kind_of :: "'v call \<Rightarrow> kind" where
  "kind_of (RegisterCell _) = CellCall"
| "kind_of (RegisterEffect _) = EffectCall"

fun initial_values :: "'v call list \<Rightarrow> 'v list" where
  "initial_values [] = []"
| "initial_values (RegisterCell v # cs) = v # initial_values cs"
| "initial_values (RegisterEffect _ # cs) = initial_values cs"

fun effect_calls :: "'v call list \<Rightarrow> 'v effect_call list" where
  "effect_calls [] = []"
| "effect_calls (RegisterCell _ # cs) = effect_calls cs"
| "effect_calls (RegisterEffect c # cs) = c # effect_calls cs"

text \<open>
  The instance: its cells and effect registrations by position, the registration order
  that the first activation recorded, the open batch of pending mutations, whether a
  re-activation is enqueued, the number of flushes scheduled and of activations run, and
  the events so far.
\<close>

record 'v inst =
  cells :: "'v list"
  effects :: "'v effect_reg list"
  order :: "kind list option"
  pending :: "(nat \<times> 'v update) list"
  phase :: phase
  reactivate :: bool
  flushes_scheduled :: nat
  activations :: nat
  trace :: "event list"

record 'v config =
  same :: "'v \<Rightarrow> 'v \<Rightarrow> bool"
  ceiling :: nat

definition default_config :: "'v config" where
  "default_config = \<lparr>same = (=), ceiling = 25\<rparr>"

definition fresh_instance :: "'v inst" where
  "fresh_instance =
     \<lparr>cells = [], effects = [], order = None, pending = [], phase = Idle,
      reactivate = False, flushes_scheduled = 0, activations = 0, trace = []\<rparr>"

subsection \<open>Mutation and flush\<close>

text \<open>
  Modelled from the spec (section 4.3, on flush): applying a batch, the pending mutations
  in the order recorded, an updater reading what the earlier ones of the batch left in
  its cell.
\<close>

fun apply_mutation :: "'v list \<Rightarrow> nat \<times> 'v update \<Rightarrow> 'v list" where
  "apply_mutation cs (i, u) = (if i < length cs then cs[i := resolve u (cs ! i)] else cs)"

definition apply_pending :: "(nat \<times> 'v update) list \<Rightarrow> 'v list \<Rightarrow> 'v list" where
  "apply_pending ms cs = foldl apply_mutation cs ms"

text \<open>
  Modelled from the spec (section 4.1): the most recently queued value of every cell
  within the open batch.
\<close>

definition queued :: "'v inst \<Rightarrow> 'v list" where
  "queued s = apply_pending (pending s) (cells s)"

text \<open>
  Modelled from the spec (section 4.3): a mutation while \<open>Idle\<close>, or the first one
  issued by an effect body during a flush, opens a batch and schedules its flush; any
  other one joins the open batch.
\<close>

definition opens_batch :: "'v inst \<Rightarrow> bool" where
  "opens_batch s = (phase s = Idle \<or> (phase s = Flushing \<and> pending s = []))"

text \<open>
  Modelled from the spec (section 4.1): \<open>mutate\<close> records the pending mutation and
  does not touch the cell. The instance is enqueued for re-activation unless the computed
  next value is the same as the cell's current value under the equality rule. The handle \<open>mutate\<close> comes from \<open>registerCell\<close>, so \<open>i\<close> names a
  cell; for any other \<open>i\<close> the model leaves the instance as it is.
\<close>

definition mutate :: "'v config \<Rightarrow> 'v inst \<Rightarrow> nat \<times> 'v update \<Rightarrow> 'v inst" where
  "mutate cfg s m =
     (if fst m < length (cells s) then
        s\<lparr>pending := pending s @ [m],
          phase := (if phase s = Idle then BatchOpen else phase s),
          reactivate :=
            (if same cfg (resolve (snd m) (queued s ! fst m)) (cells s ! fst m)
             then reactivate s else True),
          flushes_scheduled := (if opens_batch s then Suc (flushes_scheduled s)
                                else flushes_scheduled s)\<rparr>
      else s)"

definition mutate_all :: "'v config \<Rightarrow> 'v inst \<Rightarrow> (nat \<times> 'v update) list \<Rightarrow> 'v inst" where
  "mutate_all cfg s ms = foldl (mutate cfg) s ms"

text \<open>
  Modelled from the spec (section 4.3): the flush applies the batch and empties it.
\<close>

definition flush :: "'v inst \<Rightarrow> 'v inst" where
  "flush s =
     s\<lparr>cells := apply_pending (pending s) (cells s), pending := [], phase := Flushing,
       trace := trace s @ [Flushed]\<rparr>"

subsection \<open>Activation\<close>

text \<open>
  Modelled from the spec (sections 4.1 and 7): the positional binding. The first
  activation seeds the cells with the initial values (a thunk counts as the value it
  yields) and records the order of the calls; every later one must repeat that order,
  and then the stored values are returned unchanged, \<open>initial\<close> being ignored.
\<close>

definition register :: "'v call list \<Rightarrow> 'v inst \<Rightarrow> error + 'v inst" where
  "register calls s =
     (case order s of
        None \<Rightarrow> Inr (s\<lparr>cells := initial_values calls, order := Some (map kind_of calls)\<rparr>)
      | Some ks \<Rightarrow>
          if map kind_of calls = ks then Inr s else Inl RegistrationOrderViolation)"

definition entry_at :: "'v effect_reg list \<Rightarrow> nat \<Rightarrow> 'v effect_reg option" where
  "entry_at es k = (if k < length es then Some (es ! k) else None)"

text \<open>
  Modelled from the spec (section 4.2): what registration \<open>k\<close> does in the effect pass
  of activation \<open>K\<close>, given the decision
  and the entry of \<open>useEffect\<close>: nothing when it is not triggered; otherwise the
  outstanding cleanup first, then the body, whose cleanup (if it returns one) becomes
  the outstanding one and whose mutations are issued. The result is the events, the
  entry and the mutations. (The callback that the source's \<open>useEffect\<close> schedules
  stores a returned function and calls no cleanup; the comment under it says that the
  previous cleanup runs first. Here the cleanup that ran is no longer outstanding.)
\<close>

definition run_scheduled ::
  "nat \<Rightarrow> nat \<Rightarrow> 'v effect_call \<Rightarrow> bool \<times> 'v effect_reg
     \<Rightarrow> event list \<times> 'v effect_reg \<times> (nat \<times> 'v update) list" where
  "run_scheduled K k c d =
     (if fst d then
        ((case cleanup (snd d) of None \<Rightarrow> [] | Some h \<Rightarrow> [CleanupRan k h]) @ [BodyRan k K],
         (snd d)\<lparr>cleanup := (if returnsCleanup c then Some K else None)\<rparr>,
         writes c)
      else ([], snd d, []))"

definition effect_pass ::
  "'v config \<Rightarrow> nat \<Rightarrow> 'v effect_call list \<Rightarrow> 'v effect_reg list
     \<Rightarrow> (event list \<times> 'v effect_reg \<times> (nat \<times> 'v update) list) list" where
  "effect_pass cfg K cs es =
     map (\<lambda>k. run_scheduled K k (cs ! k)
                (useEffect (same cfg) (watchList (cs ! k)) (entry_at es k)))
         [0..<length cs]"

text \<open>
  Modelled from the spec (section 4.3): \<open>activate\<close>. The body's calls are bound; then
  the effects are evaluated and the triggered ones run in ascending registration order. The mutations of the bodies go
  through \<open>mutate\<close>, in the order issued.
\<close>

definition activate :: "'v config \<Rightarrow> 'v call list \<Rightarrow> 'v inst \<Rightarrow> error + 'v inst" where
  "activate cfg calls s =
     (case register calls s of
        Inl e \<Rightarrow> Inl e
      | Inr s1 \<Rightarrow>
          (let K = Suc (activations s1);
               outcomes = effect_pass cfg K (effect_calls calls) (effects s1)
           in Inr (mutate_all cfg
                     (s1\<lparr>effects := map (\<lambda>out. fst (snd out)) outcomes,
                         activations := K,
                         trace := trace s1 @ [Activated K, EffectPass K]
                                    @ concat (map fst outcomes)\<rparr>)
                     (concat (map (\<lambda>out. snd (snd out)) outcomes)))))"

subsection \<open>Teardown\<close>



subsection \<open>The flush cycle and the task\<close>

text \<open>
  The body of an instance, as the scheduler re-invokes it: the calls it makes, given the
  values its cells hold (none before the first activation).
\<close>

type_synonym 'v body = "'v list \<Rightarrow> 'v call list"

definition finish :: "'v inst \<Rightarrow> 'v inst" where
  "finish s = s\<lparr>phase := (if pending s = [] then Idle else BatchOpen)\<rparr>"

text \<open>
  Modelled from the spec (section 4.3): one flush. The batch is applied; if a
  re-activation is enqueued the body runs again
  and the effect pass follows; then the scheduler is \<open>Idle\<close>, or a batch that the
  effects opened is waiting.
\<close>

definition flush_cycle :: "'v config \<Rightarrow> 'v body \<Rightarrow> 'v inst \<Rightarrow> error + 'v inst" where
  "flush_cycle cfg body s =
     (let s1 = flush s in
      if reactivate s1 then
        (case activate cfg (body (cells s1)) (s1\<lparr>reactivate := False\<rparr>) of
           Inl e \<Rightarrow> Inl e
         | Inr s2 \<Rightarrow> Inr (finish s2))
      else Inr (finish s1))"

text \<open>
  Modelled from the spec (sections 4.3 and 7): the flushes of one externally-triggered
  task, \<open>n\<close> re-activations into it. A re-activation beyond the ceiling is refused with
  \<open>RenderLoopExceeded\<close>.
\<close>

function settle :: "'v config \<Rightarrow> 'v body \<Rightarrow> nat \<Rightarrow> 'v inst \<Rightarrow> error + 'v inst" where
  "settle cfg body n s =
     (if pending s = [] then Inr s
      else if reactivate s \<and> ceiling cfg \<le> n then Inl RenderLoopExceeded
      else (case flush_cycle cfg body s of
              Inl e \<Rightarrow> Inl e
            | Inr s' \<Rightarrow> if reactivate s then settle cfg body (Suc n) s' else Inr s'))"
  by pat_completeness auto
termination
  by (relation "measure (\<lambda>(cfg, body, n, s). ceiling cfg - n)") auto



text \<open>
  Modelled from the spec (section 6): the entry point \<open>activate(instance)\<close> of the
  host, one activation and then the flushes.
\<close>

definition host_activate :: "'v config \<Rightarrow> 'v body \<Rightarrow> 'v inst \<Rightarrow> error + 'v inst" where
  "host_activate cfg body s =
     (case activate cfg (body (cells s)) s of
        Inl e \<Rightarrow> Inl e
      | Inr s1 \<Rightarrow> settle cfg body 0 (finish s1))"

subsection \<open>The life of an instance\<close>

text \<open>
  What happens to an instance between its creation and its teardown: the host activates
  it, a task mutates a cell, a scheduled flush runs. An activation and a flush carry the
  body as it is at that moment (its props may differ from one to the next).
\<close>

datatype 'v op = Activation "'v body" | Mutation "nat \<times> 'v update" | FlushCycle "'v body"

fun perform :: "'v config \<Rightarrow> 'v op \<Rightarrow> 'v inst \<Rightarrow> error + 'v inst" where
  "perform cfg (Activation body) s = activate cfg (body (cells s)) s"
| "perform cfg (Mutation m) s = Inr (mutate cfg s m)"
| "perform cfg (FlushCycle body) s = flush_cycle cfg body s"

fun lifetime :: "'v config \<Rightarrow> 'v op list \<Rightarrow> 'v inst \<Rightarrow> error + 'v inst" where
  "lifetime cfg [] s = Inr s"
| "lifetime cfg (x # xs) s =
     (case perform cfg x s of Inl e \<Rightarrow> Inl e | Inr s' \<Rightarrow> lifetime cfg xs s')"

text \<open>The bodies that run in a life, in order.\<close>

fun bodies :: "'v op list \<Rightarrow> 'v body list" where
  "bodies [] = []"
| "bodies (Activation body # xs) = body # bodies xs"
| "bodies (Mutation m # xs) = bodies xs"
| "bodies (FlushCycle body # xs) = body # bodies xs"

subsection \<open>Instance bodies of state.md\<close>




text \<open>
  \<open>TimerComponent\<close> (``Cleanup Functions''): one cell and one effect with the empty
  watch-list, whose body starts the interval and returns the cleanup that clears it.
  The ticks of the interval are later tasks of their own.
\<close>

definition TimerComponent :: "int body" where
  "TimerComponent cs =
     [RegisterCell 0, RegisterEffect \<lparr>watchList = Some [], writes = [], returnsCleanup = True\<rparr>]"


text \<open>
  \<open>BadComponent\<close> (``Why Hook Order Matters''), the calls of one run of its body:
  \<^verbatim>\<open>if (shouldShowCounter) { useState(0) }  useState('')\<close>
\<close>

definition BadComponent :: "bool \<Rightarrow> jsval call list" where
  "BadComponent shouldShowCounter =
     (if shouldShowCounter then [RegisterCell (Num 0)] else []) @ [RegisterCell (Str [])]"

section \<open>Observations\<close>

text \<open>The events between two states of an instance.\<close>

definition events_since :: "'v inst \<Rightarrow> 'v inst \<Rightarrow> event list" where
  "events_since s s' = drop (length (trace s)) (trace s')"

fun is_body_of :: "nat \<Rightarrow> event \<Rightarrow> bool" where
  "is_body_of k (BodyRan j K) = (j = k)"
| "is_body_of k _ = False"






text \<open>Whether \<open>useEffect\<close> schedules registration \<open>k\<close> in an activation.\<close>

definition triggered :: "'v config \<Rightarrow> 'v effect_reg list \<Rightarrow> 'v effect_call list \<Rightarrow> nat \<Rightarrow> bool" where
  "triggered cfg es cs k = fst (useEffect (same cfg) (watchList (cs ! k)) (entry_at es k))"



text \<open>The cleanup of registration \<open>k\<close> that is outstanding, if there is one.\<close>

definition outstanding :: "'v inst \<Rightarrow> nat \<Rightarrow> nat option" where
  "outstanding s k = (case entry_at (effects s) k of None \<Rightarrow> None | Some e \<Rightarrow> cleanup e)"



text \<open>An idle instance with one cell that holds 0.\<close>

definition one_cell :: "int inst" where
  "one_cell = fresh_instance\<lparr>cells := [0], order := Some [CellCall]\<rparr>"

section \<open>Invariants\<close>


text \<open>
  A step that leaves the registrations, the count of activations and the recorded order
  as they are, and adds at most a flush to the events.
\<close>

definition quiet :: "'v inst \<Rightarrow> 'v inst \<Rightarrow> bool" where
  "quiet s s' =
     (effects s' = effects s \<and> activations s' = activations s \<and> order s' = order s \<and>
      (trace s' = trace s \<or> trace s' = trace s @ [Flushed]))"

section \<open>Properties of the hook store and of the examples\<close>

lemma useState_index: "snd (fst (useState v s)) = hookIndex s"
  by (simp add: useState_def Let_def)

lemma Counter_fresh:
  "Counter fresh_store = ((0, 0), \<lparr>componentStates = [Some 0], hookIndex = 1, scheduled = 0\<rparr>)"
  by (simp add: Counter_def useState_def begin_render_def fresh_store_def js_get_def js_set_def
      Let_def)

lemma rendered_count_eq: "js_get (componentStates s) 0 = Some n \<Longrightarrow> rendered_count s = n"
  by (simp add: rendered_count_def Counter_def useState_def begin_render_def)

lemma setState_slot0:
  "setState 0 u \<lparr>componentStates = [Some n], hookIndex = h, scheduled = r\<rparr> =
     Some \<lparr>componentStates = [Some (resolve u n)], hookIndex = h, scheduled = Suc r\<rparr>"
  by (simp add: setState_def js_get_def js_set_def)

text \<open>
  C1. The counter starts at 0. Three \<open>setCount(count + 1)\<close> in a row, with the \<open>count\<close>
  that the render captured, leave 1 in the cell: each stores \<open>0 + 1\<close>. Three
  \<open>setCount(prev => prev + 1)\<close> in a row leave 3, for \<open>CounterFixed\<close> of state.md and
  for \<open>incrementThree\<close> of Counter.jsx: each updater is applied to what the call before
  it stored.
\<close>

theorem stale_literal_one_functional_three:
  "(case Counter fresh_store of
      ((count, setCount), s) \<Rightarrow>
        map_option rendered_count (Counter_handleClick count setCount s)) = Some 1
   \<and> (case Counter fresh_store of
      ((count, setCount), s) \<Rightarrow>
        map_option rendered_count (CounterFixed_handleClick setCount s)) = Some 3
   \<and> (case Counter fresh_store of
      ((count, setCount), s) \<Rightarrow>
        map_option rendered_count (incrementThree setCount s)) = Some 3"
  by (simp add: Counter_fresh Counter_handleClick_def CounterFixed_handleClick_def
      incrementThree_def setState_slot0 rendered_count_eq js_get_def plus_one_def)

text \<open>
  C3. For every reducer function, action and store, \<open>dispatch(action)\<close> on a
  reducer-backed cell gives the store that \<open>setState(prev => reducerFn(prev, action))\<close>
  gives on a plain cell at the same slot holding the same value: the same value in the
  cell, and one render requested.
\<close>

theorem dispatch_is_functional_update:
  "dispatch reducerFn i action s = setState i (Updater (\<lambda>prev. reducerFn prev action)) s"
  by (auto simp: dispatch_def setState_def js_get_def js_set_def split: option.splits)

text \<open>
  The claim that \<open>reducer\<close> is pure fails on \<open>add\<close>: the id of the new item is the
  clock reading, so two evaluations on the same state and action differ when the clock
  has moved.
\<close>

theorem reducer_add_reads_clock:
  "reducer 1 [] (Action ''add'' (Str ''milk'')) \<noteq> reducer 2 [] (Action ''add'' (Str ''milk''))"
  by (simp add: reducer_def)

text \<open>
  C7, amended. Two evaluations of \<open>reducer\<close> on the same state and action yield equal
  states exactly when the action is not \<open>add\<close> or the clock reads the same at both: the
  clock is the only input besides the state and the action, and \<open>remove\<close> and every
  other action do not read it.
\<close>

theorem reducer_pure_up_to_clock:
  "(reducer now state action = reducer now' state action) =
     (action_type action = ''add'' \<longrightarrow> now = now')"
  by (auto simp: reducer_def)

theorem reducer_pure_up_to_clock_witness:
  "reducer 1 [Todo 7 (Str ''tea'')] (Action ''remove'' (Num 7)) =
   reducer 2 [Todo 7 (Str ''tea'')] (Action ''remove'' (Num 7))"
proof -
  have "(reducer 1 [Todo 7 (Str ''tea'')] (Action ''remove'' (Num 7)) =
         reducer 2 [Todo 7 (Str ''tea'')] (Action ''remove'' (Num 7))) =
        (action_type (Action ''remove'' (Num 7)) = ''add'' \<longrightarrow> (1::int) = 2)"
    by (rule reducer_pure_up_to_clock)
  then show ?thesis by simp
qed

text \<open>
  The sketch of \<open>useState\<close> binds by position and has no check of the order: when the
  second render of \<open>BadComponent\<close> skips the counter, \<open>name\<close> reads the slot of the
  count. (state.md, Errors 3 and 6, documents that the runtime raises an error there;
  the order check of the scheduler is \<open>register\<close>.)
\<close>

lemma sketch_binds_by_position:
  "fst (BadComponent_render True fresh_store) = Str []"
  "fst (BadComponent_render False (snd (BadComponent_render True fresh_store))) = Num 0"
  by (simp_all add: BadComponent_render_def useState_def begin_render_def fresh_store_def
      js_get_def js_set_def Let_def)

lemma onClick_keeps:
  assumes "js_get (componentStates s) i = Some n" and "1 \<le> n"
  shows "\<exists>s' n'. onClick b i s = Some s' \<and> js_get (componentStates s') i = Some n' \<and> 1 \<le> n'"
proof -
  have lt: "i < length (componentStates s)"
    using assms(1) by (auto simp: js_get_def split: if_splits)
  show ?thesis
    using assms lt
    by (cases b) (auto simp: setState_def js_get_def js_set_def plus_one_def)
qed

lemma clicks_keep:
  assumes "js_get (componentStates s) i = Some n" and "1 \<le> n"
  shows "\<exists>s' n'. clicks bs i s = Some s' \<and> js_get (componentStates s') i = Some n' \<and> 1 \<le> n'"
  using assms
proof (induction bs arbitrary: s n)
  case Nil
  then show ?case by simp
next
  case (Cons b bs)
  from onClick_keeps [OF Cons.prems, of b]
  obtain s1 n1 where s1: "onClick b i s = Some s1"
      "js_get (componentStates s1) i = Some n1" "1 \<le> n1"
    by blast
  from Cons.IH [OF s1(2,3)] s1(1) show ?case by simp
qed

lemma rendered_userId_eq: "js_get (componentStates s) 0 = Some n \<Longrightarrow> rendered_userId s = n"
  by (simp add: rendered_userId_def UserFetcher_def useState_def begin_render_def)

text \<open>
  C10. The panel starts with user id 1. After any finite sequence of presses of Prev and
  Next, every handler has run and the user id that the panel renders is at least 1.
\<close>

theorem userId_at_least_one:
  "\<exists>s'. clicks bs (snd (fst (UserFetcher fresh_store))) (snd (UserFetcher fresh_store)) = Some s'
        \<and> 1 \<le> rendered_userId s'"
proof -
  have i: "snd (fst (UserFetcher fresh_store)) = 0"
    by (simp add: UserFetcher_def useState_index begin_render_def)
  have "js_get (componentStates (snd (UserFetcher fresh_store))) 0 = Some 1"
    by (simp add: UserFetcher_def useState_def begin_render_def fresh_store_def js_get_def
        js_set_def Let_def)
  from clicks_keep [OF this, of bs] i show ?thesis
    by (auto simp: rendered_userId_eq)
qed

section \<open>Properties of the activation\<close>

lemma mutate_keeps:
  "effects (mutate cfg s m) = effects s" "trace (mutate cfg s m) = trace s"
  "activations (mutate cfg s m) = activations s" "order (mutate cfg s m) = order s"
  "cells (mutate cfg s m) = cells s"
  by (simp_all add: mutate_def)

lemma mutate_all_keeps:
  "effects (mutate_all cfg s ms) = effects s \<and> trace (mutate_all cfg s ms) = trace s \<and>
   activations (mutate_all cfg s ms) = activations s \<and> order (mutate_all cfg s ms) = order s \<and>
   cells (mutate_all cfg s ms) = cells s"
  unfolding mutate_all_def
  by (induction ms arbitrary: s) (simp_all add: mutate_keeps)

lemma register_keeps:
  "register calls s = Inr s1 \<Longrightarrow>
     effects s1 = effects s \<and> trace s1 = trace s \<and> activations s1 = activations s \<and>
     order s1 = Some (map kind_of calls)"
  by (auto simp: register_def split: option.splits if_splits)

lemma activate_Inr:
  assumes "activate cfg calls s = Inr s'"
  shows "activations s' = Suc (activations s)"
    and "effects s' = map (\<lambda>out. fst (snd out))
           (effect_pass cfg (Suc (activations s)) (effect_calls calls) (effects s))"
    and "trace s' = trace s @ [Activated (Suc (activations s)), EffectPass (Suc (activations s))]
           @ concat (map fst (effect_pass cfg (Suc (activations s)) (effect_calls calls) (effects s)))"
    and "order s' = Some (map kind_of calls)"
  using assms
  by (auto simp: activate_def Let_def mutate_all_keeps split: sum.splits dest!: register_keeps)

lemma activate_total:
  "(\<exists>s'. activate cfg calls s = Inr s') = (order s = None \<or> order s = Some (map kind_of calls))"
  by (auto simp: activate_def register_def Let_def split: option.splits)

lemma activate_events:
  assumes "activate cfg calls s = Inr s'"
  shows "events_since s s' = [Activated (activations s'), EffectPass (activations s')]
           @ concat (map fst (effect_pass cfg (activations s') (effect_calls calls) (effects s)))"
  using activate_Inr [OF assms] by (simp add: events_since_def)

lemma concat_map_upt_single:
  "(\<And>j. j < n \<Longrightarrow> j \<noteq> k \<Longrightarrow> g j = []) \<Longrightarrow>
     concat (map g [0..<n]) = (if k < n then g k else [])"
  by (induction n) (auto simp: less_Suc_eq)

lemma body_events_of_pass:
  "filter (is_body_of k) (concat (map fst (effect_pass cfg K cs es))) =
     (if k < length cs \<and> triggered cfg es cs k then [BodyRan k K] else [])"
proof -
  let ?g = "\<lambda>j. filter (is_body_of k)
      (fst (run_scheduled K j (cs ! j) (useEffect (same cfg) (watchList (cs ! j)) (entry_at es j))))"
  have "filter (is_body_of k) (concat (map fst (effect_pass cfg K cs es)))
      = concat (map ?g [0..<length cs])"
    by (simp add: effect_pass_def filter_concat comp_def)
  also have "\<dots> = (if k < length cs then ?g k else [])"
    by (rule concat_map_upt_single) (auto simp: run_scheduled_def split: option.splits)
  also have "\<dots> = (if k < length cs \<and> triggered cfg es cs k then [BodyRan k K] else [])"
    by (auto simp: run_scheduled_def triggered_def split: option.splits)
  finally show ?thesis .
qed

lemma body_events_of_activation:
  assumes "activate cfg calls s = Inr s'"
  shows "filter (is_body_of k) (events_since s s') =
     (if k < length (effect_calls calls) \<and> triggered cfg (effects s) (effect_calls calls) k
      then [BodyRan k (activations s')] else [])"
  by (simp add: activate_events [OF assms] body_events_of_pass)




lemma fresh_fields:
  "effects fresh_instance = []" "trace fresh_instance = []" "activations fresh_instance = 0"
  "order fresh_instance = None" "cells fresh_instance = []"
  by (simp_all add: fresh_instance_def)




section \<open>Properties of a life\<close>

lemma quiet_refl: "quiet s s"
  by (simp add: quiet_def)

lemma quiet_flush: "quiet s (flush s)" "quiet s ((flush s)\<lparr>reactivate := b\<rparr>)"
  by (simp_all add: quiet_def flush_def)

lemma quiet_finish: "quiet s (finish s)"
  by (simp add: quiet_def finish_def)

lemma quiet_mutate: "quiet s (mutate cfg s m)"
  by (simp add: quiet_def mutate_keeps)

lemma quiet_finish_flush: "quiet s (finish (flush s))"
  by (simp add: quiet_def finish_def flush_def)

text \<open>
  Every step of a life is quiet, or it is an activation of one of its bodies between two
  quiet steps.
\<close>

lemma perform_cases:
  assumes "perform cfg x s = Inr s'"
  shows "quiet s s' \<or>
         (\<exists>body cs s0 s2. body \<in> set (bodies [x]) \<and> quiet s s0 \<and>
            activate cfg (body cs) s0 = Inr s2 \<and> quiet s2 s')"
proof (cases x)
  case (Activation body)
  then have "activate cfg (body (cells s)) s = Inr s'"
    using assms by simp
  then show ?thesis
    using Activation quiet_refl by fastforce
next
  case (Mutation m)
  then have "s' = mutate cfg s m"
    using assms by simp
  then show ?thesis
    by (simp add: quiet_mutate)
next
  case (FlushCycle body)
  show ?thesis
  proof (cases "reactivate (flush s)")
    case False
    then show ?thesis
      using assms FlushCycle quiet_finish_flush by (auto simp: flush_cycle_def Let_def)
  next
    case True
    then obtain s2 where
      s2: "activate cfg (body (cells (flush s))) ((flush s)\<lparr>reactivate := False\<rparr>) = Inr s2"
      and s': "s' = finish s2"
      using assms FlushCycle by (auto simp: flush_cycle_def Let_def split: sum.splits)
    have "body \<in> set (bodies [x])"
      using FlushCycle by simp
    then show ?thesis
      using s2 s' quiet_flush(2) [of s False] quiet_finish [of s2] by blast
  qed
qed

lemma lifetime_induct:
  assumes life: "lifetime cfg xs s0 = Inr s" and start: "P s0"
    and q: "\<And>t t'. P t \<Longrightarrow> quiet t t' \<Longrightarrow> P t'"
    and a: "\<And>body cs t t'. body \<in> set (bodies xs) \<Longrightarrow> P t \<Longrightarrow>
              activate cfg (body cs) t = Inr t' \<Longrightarrow> P t'"
  shows "P s"
  using life start a
proof (induction xs arbitrary: s0)
  case Nil
  then show ?case by simp
next
  case (Cons x xs)
  then obtain s1 where s1: "perform cfg x s0 = Inr s1" "lifetime cfg xs s1 = Inr s"
    by (auto split: sum.splits)
  have sub: "set (bodies [x]) \<subseteq> set (bodies (x # xs))" "set (bodies xs) \<subseteq> set (bodies (x # xs))"
    by (cases x; auto)+
  have "P s1"
    using perform_cases [OF s1(1)] Cons.prems(2) q Cons.prems(3) sub(1) by blast
  then show ?case
    using Cons.IH [OF s1(2)] Cons.prems(3) sub(2) by blast
qed

lemma activate_trace:
  "activate cfg calls s = Inr s' \<Longrightarrow> trace s' = trace s @ events_since s s'"
  by (simp add: activate_Inr(3) events_since_def)

lemma effects_after:
  assumes "activate cfg calls s = Inr s'"
  shows "length (effects s') = length (effect_calls calls)"
    and "k < length (effect_calls calls) \<Longrightarrow>
           deps (effects s' ! k) = watchList (effect_calls calls ! k)"
    and "outstanding s' k =
           (if k < length (effect_calls calls) then
              (if triggered cfg (effects s) (effect_calls calls) k
               then (if returnsCleanup (effect_calls calls ! k) then Some (activations s') else None)
               else outstanding s k)
            else None)"
  using activate_Inr(1) [OF assms]
  by (auto simp: activate_Inr(2) [OF assms] effect_pass_def run_scheduled_def useEffect_def
      triggered_def outstanding_def entry_at_def Let_def split: option.splits)




















lemma perform_total:
  assumes "\<forall>body \<in> set (bodies [x]). \<forall>cs. map kind_of (body cs) = ks"
    and "order s = None \<or> order s = Some ks"
  shows "\<exists>s'. perform cfg x s = Inr s'"
proof (cases x)
  case (Activation body)
  then show ?thesis
    using assms by (auto simp: activate_total)
next
  case (Mutation m)
  then show ?thesis by simp
next
  case (FlushCycle body)
  have "\<exists>s2. activate cfg (body (cells (flush s))) ((flush s)\<lparr>reactivate := False\<rparr>) = Inr s2"
    using assms FlushCycle by (auto simp: activate_total flush_def)
  then show ?thesis
    using FlushCycle by (auto simp: flush_cycle_def Let_def)
qed

lemma perform_order:
  assumes "perform cfg x s = Inr s'"
    and "\<forall>body \<in> set (bodies [x]). \<forall>cs. map kind_of (body cs) = ks"
    and "order s = None \<or> order s = Some ks"
  shows "order s' = None \<or> order s' = Some ks"
  using perform_cases [OF assms(1)]
proof
  assume "quiet s s'"
  then show ?thesis using assms(3) by (simp add: quiet_def)
next
  assume "\<exists>body cs s0 s2. body \<in> set (bodies [x]) \<and> quiet s s0 \<and>
            activate cfg (body cs) s0 = Inr s2 \<and> quiet s2 s'"
  then obtain body cs s0 s2 where b: "body \<in> set (bodies [x])"
    and a: "activate cfg (body cs) s0 = Inr s2" and q: "quiet s2 s'"
    by blast
  have "order s2 = Some ks"
    using activate_Inr(4) [OF a] assms(2) b by simp
  then show ?thesis using q by (simp add: quiet_def)
qed

lemma lifetime_total:
  "(\<forall>body \<in> set (bodies xs). \<forall>cs. map kind_of (body cs) = ks) \<Longrightarrow>
   order s0 = None \<or> order s0 = Some ks \<Longrightarrow> \<exists>s. lifetime cfg xs s0 = Inr s"
proof (induction xs arbitrary: s0)
  case Nil
  then show ?case by simp
next
  case (Cons x xs)
  have sub: "set (bodies [x]) \<subseteq> set (bodies (x # xs))" "set (bodies xs) \<subseteq> set (bodies (x # xs))"
    by (cases x; auto)+
  have bx: "\<forall>body \<in> set (bodies [x]). \<forall>cs. map kind_of (body cs) = ks"
    using Cons.prems(1) sub(1) by blast
  from perform_total [OF bx Cons.prems(2)]
  obtain s1 where s1: "perform cfg x s0 = Inr s1" by blast
  have "\<exists>s. lifetime cfg xs s1 = Inr s"
    using Cons.IH [of s1] Cons.prems(1) sub(2) perform_order [OF s1 bx Cons.prems(2)] by blast
  then show ?case using s1 by simp
qed

lemma lifetime_order:
  assumes "lifetime cfg xs s0 = Inr s" and "order s0 = Some ks"
  shows "order s = Some ks"
  using assms
proof (rule lifetime_induct)
  show "order t' = Some ks" if "order t = Some ks" "quiet t t'" for t t' :: "'a inst"
    using that by (simp add: quiet_def)
  show "order t' = Some ks" if "order t = Some ks" "activate cfg (body cs) t = Inr t'"
    for body cs and t t' :: "'a inst"
  proof -
    have "map kind_of (body cs) = ks"
      using that activate_total [of cfg "body cs" t] by auto
    then show ?thesis
      using activate_Inr(4) [OF that(2)] by simp
  qed
qed

text \<open>
  C6. Take any life of an instance that begins with its first activation, in which
  every run of the body registers effect \<open>k\<close> with the empty watch-list. However many
  activations, mutations and flushes follow, the body of effect \<open>k\<close> has run exactly
  once, in the effect pass of the first activation.
\<close>

theorem empty_watch_list_runs_once:
  assumes "lifetime cfg (Activation first # xs) fresh_instance = Inr s"
    and "\<forall>body \<in> set (first # bodies xs). \<forall>cs.
           k < length (effect_calls (body cs)) \<and>
           watchList (effect_calls (body cs) ! k) = Some []"
  shows "filter (is_body_of k) (trace s) = [BodyRan k 1]"
proof -
  let ?P = "\<lambda>t. k < length (effects t) \<and> deps (effects t ! k) = Some [] \<and>
      filter (is_body_of k) (trace t) = [BodyRan k 1]"
  obtain s1 where s1: "activate cfg (first []) fresh_instance = Inr s1"
      "lifetime cfg xs s1 = Inr s"
    using assms(1) by (auto simp: fresh_fields split: sum.splits)
  have k: "k < length (effect_calls (first []))" "watchList (effect_calls (first []) ! k) = Some []"
    using assms(2) by auto
  have "triggered cfg (effects fresh_instance) (effect_calls (first [])) k"
    by (simp add: triggered_def useEffect_def entry_at_def depsChanged_def fresh_fields)
  then have "filter (is_body_of k) (trace s1) = [BodyRan k 1]"
    using k(1) activate_Inr(1) [OF s1(1)]
    by (simp add: activate_trace [OF s1(1)] body_events_of_activation [OF s1(1)]
        fresh_fields)
  moreover have "k < length (effects s1)" "deps (effects s1 ! k) = Some []"
    using effects_after(1,2) [OF s1(1)] k by simp_all
  ultimately have start: "?P s1" by simp
  have "?P s"
    using s1(2) start
  proof (rule lifetime_induct)
    show "?P t'" if "?P t" "quiet t t'" for t t' :: "'a inst"
      using that by (auto simp: quiet_def)
    show "?P t'" if b: "body \<in> set (bodies xs)" and t: "?P t"
      and a: "activate cfg (body cs) t = Inr t'" for body cs and t t' :: "'a inst"
    proof -
      have kb: "k < length (effect_calls (body cs))"
          "watchList (effect_calls (body cs) ! k) = Some []"
        using assms(2) b by auto
      have "\<not> triggered cfg (effects t) (effect_calls (body cs)) k"
        using t kb
        by (simp add: triggered_def useEffect_def entry_at_def depsChanged_def areArraysEqual_def)
      then have "filter (is_body_of k) (trace t') = filter (is_body_of k) (trace t)"
        by (simp add: activate_trace [OF a] body_events_of_activation [OF a])
      then show ?thesis
        using effects_after(1,2) [OF a] kb t by simp
    qed
  qed
  then show ?thesis by simp
qed

lemma TimerComponent_calls:
  "map kind_of (TimerComponent cs) = [CellCall, EffectCall]"
  "effect_calls (TimerComponent cs) =
     [\<lparr>watchList = Some [], writes = [], returnsCleanup = True\<rparr>]"
  by (simp_all add: TimerComponent_def)

theorem empty_watch_list_runs_once_witness:
  "\<exists>s. lifetime default_config
          [Activation TimerComponent, Mutation (0, Updater plus_one), FlushCycle TimerComponent,
           Activation TimerComponent, Mutation (0, Literal 60), FlushCycle TimerComponent]
          fresh_instance = Inr s
     \<and> filter (is_body_of 0) (trace s) = [BodyRan 0 1]"
proof -
  let ?xs = "[Mutation (0, Updater plus_one), FlushCycle TimerComponent,
           Activation TimerComponent, Mutation (0, Literal 60), FlushCycle TimerComponent]"
  have "\<exists>s. lifetime default_config (Activation TimerComponent # ?xs) fresh_instance = Inr s"
    by (rule lifetime_total [where ks = "[CellCall, EffectCall]"])
      (simp_all add: TimerComponent_calls fresh_fields)
  then obtain s where
    s: "lifetime default_config (Activation TimerComponent # ?xs) fresh_instance = Inr s"
    by blast
  from empty_watch_list_runs_once [OF s, of 0]
  have "filter (is_body_of 0) (trace s) = [BodyRan 0 1]"
    by (simp add: TimerComponent_calls)
  with s show ?thesis by blast
qed

text \<open>
  C9. Take any life of an instance that begins with its first activation. An activation
  whose body makes a sequence of \<open>registerCell\<close> and \<open>registerEffect\<close> calls that
  differs from that of the first activation, in number or in order, is aborted with
  \<open>RegistrationOrderViolation\<close>; so is the entry point of the host. No state comes out
  of it, so no stored value is bound to another position.
\<close>

theorem registration_order_violation:
  assumes "lifetime cfg (Activation first # xs) fresh_instance = Inr s"
    and "map kind_of second \<noteq> map kind_of (first [])"
  shows "activate cfg second s = Inl RegistrationOrderViolation
       \<and> host_activate cfg (\<lambda>cs. second) s = Inl RegistrationOrderViolation"
proof -
  obtain s1 where s1: "activate cfg (first []) fresh_instance = Inr s1"
      "lifetime cfg xs s1 = Inr s"
    using assms(1) by (auto simp: fresh_fields split: sum.splits)
  have "order s = Some (map kind_of (first []))"
    using lifetime_order [OF s1(2)] activate_Inr(4) [OF s1(1)] by simp
  then have "activate cfg second s = Inl RegistrationOrderViolation"
    using assms(2) by (auto simp: activate_def register_def)
  then show ?thesis
    by (simp add: host_activate_def)
qed

theorem registration_order_violation_witness:
  "\<exists>s. lifetime default_config [Activation (\<lambda>cs. BadComponent True)] fresh_instance = Inr s
     \<and> activate default_config (BadComponent False) s = Inl RegistrationOrderViolation
     \<and> host_activate default_config (\<lambda>cs. BadComponent False) s = Inl RegistrationOrderViolation"
proof -
  have "\<exists>s. lifetime default_config [Activation (\<lambda>cs. BadComponent True)] fresh_instance = Inr s"
    by (rule lifetime_total [where ks = "[CellCall, CellCall]"])
      (simp_all add: BadComponent_def fresh_fields)
  then obtain s where
    s: "lifetime default_config [Activation (\<lambda>cs. BadComponent True)] fresh_instance = Inr s"
    by blast
  from registration_order_violation [OF s, of "BadComponent False"]
  have "activate default_config (BadComponent False) s = Inl RegistrationOrderViolation
     \<and> host_activate default_config (\<lambda>cs. BadComponent False) s = Inl RegistrationOrderViolation"
    by (simp add: BadComponent_def)
  with s show ?thesis by blast
qed

section \<open>Properties of the batch\<close>

lemma apply_mutation_length: "length (apply_mutation cs m) = length cs"
  by (cases m) simp

lemma apply_pending_length: "length (apply_pending ms cs) = length cs"
  unfolding apply_pending_def
  by (induction ms arbitrary: cs) (simp_all add: apply_mutation_length)

















text \<open>
  The batch queue agrees with the hook store on the two handlers of the counter: from a
  cell that holds 0, the flush of three literal mutations to \<open>0 + 1\<close> leaves 1, the flush
  of three updaters \<open>prev + 1\<close> leaves 3.
\<close>

lemma batch_literal_one_functional_three:
  "cells (flush (mutate_all default_config one_cell
      [(0, Literal (plus_one 0)), (0, Literal (plus_one 0)), (0, Literal (plus_one 0))])) = [1]"
  "cells (flush (mutate_all default_config one_cell
      [(0, Updater plus_one), (0, Updater plus_one), (0, Updater plus_one)])) = [3]"
  by (simp_all add: flush_def mutate_all_def mutate_def apply_pending_def one_cell_def
      fresh_instance_def plus_one_def)

section \<open>The re-activation ceiling\<close>

lemma mutate_all_Nil: "mutate_all cfg s [] = s"
  by (simp add: mutate_all_def)

























end
